theory Spec2Isabelle
  imports Main
begin

section \<open>Characters\<close>

text \<open>
  A Python \<open>str\<close> is a sequence of code points and \<open>len\<close> counts code points.  A
  \<open>char\<close> stands for one code point below 256, and the three tables below are the ones
  of Python 3 on that range: \<open>str.isalnum\<close> (which the \<open>re\<close> module uses for
  \<open>\w\<close> and \<open>\b\<close>), \<open>str.isspace\<close> (used by \<open>\s\<close> and by \<open>str.strip()\<close>) and
  \<open>str.lower\<close>.  Code points from 256 on are outside this model; among them are
  uppercase letters that \<open>str.lower\<close> leaves as they are and letters whose lowercase form
  has two code points, so nothing below is to be read as a statement about them.
\<close>

definition in_range :: "nat \<Rightarrow> nat \<Rightarrow> char \<Rightarrow> bool" where
  "in_range lo hi c = (lo \<le> of_char c \<and> (of_char c :: nat) \<le> hi)"

definition isalnum :: "char \<Rightarrow> bool" where
  "isalnum c =
     (in_range 48 57 c \<or> in_range 65 90 c \<or> in_range 97 122 c \<or> in_range 170 170 c \<or>
      in_range 178 179 c \<or> in_range 181 181 c \<or> in_range 185 186 c \<or>
      in_range 188 190 c \<or> in_range 192 214 c \<or> in_range 216 246 c \<or>
      in_range 248 255 c)"

definition isspace :: "char \<Rightarrow> bool" where
  "isspace c =
     (in_range 9 13 c \<or> in_range 28 32 c \<or> in_range 133 133 c \<or> in_range 160 160 c)"

text \<open>
  \<open>str.lower\<close> below 256: the code points 65 to 90, 192 to 214 and 216 to 222 move up
  by 32, every other one stays.
\<close>

definition lower_char :: "char \<Rightarrow> char" where
  "lower_char c =
     (if in_range 65 90 c \<or> in_range 192 214 c \<or> in_range 216 222 c
      then char_of (of_char c + (32 :: nat)) else c)"

definition lower :: "string \<Rightarrow> string" where
  "lower s = map lower_char s"

text \<open>The pattern atoms: \<open>\w\<close>, the set \<open>[\w'-]\<close> and the set \<open>[.!?]\<close>.\<close>

definition is_word :: "char \<Rightarrow> bool" where
  "is_word c = (isalnum c \<or> c = CHR ''_'')"

definition in_class :: "char \<Rightarrow> bool" where
  "in_class c = (is_word c \<or> c = CHR 0x27 \<or> c = CHR ''-'')"

definition is_term :: "char \<Rightarrow> bool" where
  "is_term c = (c = CHR ''.'' \<or> c = CHR ''!'' \<or> c = CHR ''?'')"

section \<open>The regular expressions of \<open>analyze_text\<close>\<close>

subsection \<open>\<open>re.findall(r"\b[\w'-]+\b", text)\<close>\<close>

text \<open>
  \<open>\b\<close> at position \<open>i\<close>: the character before and the character at \<open>i\<close> differ in
  being word characters, where outside the string counts as not a word character.
\<close>

definition at_boundary :: "string \<Rightarrow> nat \<Rightarrow> bool" where
  "at_boundary s i =
     ((0 < i \<and> i \<le> length s \<and> is_word (s ! (i - 1))) \<noteq> (i < length s \<and> is_word (s ! i)))"

text \<open>The greedy repeat \<open>[\w'-]+\<close> first runs as far as the set matches.\<close>

function class_run_end :: "string \<Rightarrow> nat \<Rightarrow> nat" where
  "class_run_end s i = (if i < length s \<and> in_class (s ! i) then class_run_end s (Suc i) else i)"
  by pat_completeness auto
termination
  by (relation "measure (\<lambda>(s, i). length s - i)") auto

declare class_run_end.simps [simp del]

text \<open>
  Then it gives characters back one at a time until the closing \<open>\b\<close> matches; the repeat
  keeps at least one character, so the end stays above \<open>pos\<close>.
\<close>

fun backtrack :: "string \<Rightarrow> nat \<Rightarrow> nat \<Rightarrow> nat option" where
  "backtrack s pos e =
     (if e \<le> pos then None
      else if at_boundary s e then Some e
      else backtrack s pos (e - 1))"

declare backtrack.simps [simp del]

definition match_at :: "string \<Rightarrow> nat \<Rightarrow> nat option" where
  "match_at s pos = (if at_boundary s pos then backtrack s pos (class_run_end s pos) else None)"

text \<open>
  The search: try each start position from left to right; after a match the search goes
  on from the end of the match.  The result is the list of the spans \<open>(start, end)\<close>.
\<close>

function findall_spans :: "string \<Rightarrow> nat \<Rightarrow> (nat \<times> nat) list" where
  "findall_spans s pos =
     (if length s < pos then []
      else case match_at s pos of
             Some e \<Rightarrow> (pos, e) # findall_spans s e
           | None \<Rightarrow> findall_spans s (Suc pos))"
  by pat_completeness auto
termination
proof -
  have gt: "pos < e" if "match_at s pos = Some e" for s pos e
  proof -
    have "backtrack s pos k = Some e \<Longrightarrow> pos < e" for k
    proof (induction k)
      case 0
      then show ?case by (simp add: backtrack.simps [of s pos 0])
    next
      case (Suc k)
      then show ?case
        by (simp add: backtrack.simps [of s pos "Suc k"] split: if_splits)
    qed
    with that show ?thesis
      by (simp add: match_at_def split: if_splits)
  qed
  show ?thesis
    by (relation "measure (\<lambda>(s, pos). Suc (length s) - pos)") (auto dest: gt)
qed

declare findall_spans.simps [simp del]

definition slice :: "string \<Rightarrow> nat \<times> nat \<Rightarrow> string" where
  "slice s p = take (snd p - fst p) (drop (fst p) s)"

definition findall :: "string \<Rightarrow> string list" where
  "findall s = map (slice s) (findall_spans s 0)"

subsection \<open>\<open>re.sub(r"\s+", "", text)\<close>\<close>

function sub_ws :: "string \<Rightarrow> string" where
  "sub_ws [] = []"
| "sub_ws (c # s) = (if isspace c then sub_ws (dropWhile isspace s) else c # sub_ws s)"
  by pat_completeness auto
termination
  by (relation "measure length") (auto simp: length_dropWhile_le less_Suc_eq_le)

subsection \<open>\<open>re.split(r'[.!?]+', text)\<close>\<close>

text \<open>
  The text before each match of \<open>[.!?]+\<close> is a segment, and so is the text after the last
  match; \<open>cur\<close> holds the characters of the segment read so far, last one first.
\<close>

function re_split :: "string \<Rightarrow> string \<Rightarrow> string list" where
  "re_split cur [] = [rev cur]"
| "re_split cur (c # s) =
     (if is_term c then rev cur # re_split [] (dropWhile is_term s)
      else re_split (c # cur) s)"
  by pat_completeness auto
termination
  by (relation "measure (\<lambda>(cur, s). length s)") (auto simp: length_dropWhile_le less_Suc_eq_le)

section \<open>String methods and \<open>Counter\<close>\<close>

definition strip_chars :: "(char \<Rightarrow> bool) \<Rightarrow> string \<Rightarrow> string" where
  "strip_chars P s = rev (dropWhile P (rev (dropWhile P s)))"

definition strip :: "string \<Rightarrow> string" where
  "strip s = strip_chars isspace s"

definition is_quote :: "char \<Rightarrow> bool" where
  "is_quote c = (c = CHR 0x27 \<or> c = CHR 0x22)"

definition strip_quotes :: "string \<Rightarrow> string" where
  "strip_quotes s = strip_chars is_quote s"

text \<open>
  A \<open>Counter\<close> is a dict: its items are in the order in which the keys were first
  inserted.  \<open>most_common(n)\<close> is \<open>sorted(items, key=count, reverse=True)[:n]\<close>, a stable
  sort.
\<close>

fun counter_add :: "'a \<Rightarrow> ('a \<times> int) list \<Rightarrow> ('a \<times> int) list" where
  "counter_add w [] = [(w, 1)]"
| "counter_add w ((k, n) # kvs) =
     (if k = w then (k, n + 1) # kvs else (k, n) # counter_add w kvs)"

definition Counter :: "'a list \<Rightarrow> ('a \<times> int) list" where
  "Counter ws = foldl (\<lambda>acc w. counter_add w acc) [] ws"

definition most_common :: "nat \<Rightarrow> ('a \<times> int) list \<Rightarrow> ('a \<times> int) list" where
  "most_common n items = take n (sort_key (\<lambda>p. - snd p) items)"

section \<open>\<open>analyze_text\<close>\<close>

record stats =
  words :: int
  characters :: int
  characters_no_spaces :: int
  sentences :: int
  most_common_words :: "(string \<times> int) list"

definition normalise :: "string \<Rightarrow> string" where
  "normalise w = strip_quotes (lower w)"

definition analyze_text :: "string \<Rightarrow> stats" where
  "analyze_text text =
     \<lparr> words = int (length (findall text)),
       characters = int (length text),
       characters_no_spaces = int (length (sub_ws text)),
       sentences = int (length (filter (\<lambda>s. strip s \<noteq> []) (re_split [] text))),
       most_common_words = most_common 5 (Counter (map normalise (findall text))) \<rparr>"

section \<open>\<open>format_report\<close>\<close>

fun digits :: "nat \<Rightarrow> string" where
  "digits n = (if n < 10 then [char_of (48 + n)] else digits (n div 10) @ [char_of (48 + n mod 10)])"

declare digits.simps [simp del]

definition str_int :: "int \<Rightarrow> string" where
  "str_int i = (if i < 0 then CHR ''-'' # digits (nat (- i)) else digits (nat i))"

fun join :: "string \<Rightarrow> string list \<Rightarrow> string" where
  "join sep [] = []"
| "join sep [x] = x"
| "join sep (x # y # ys) = x @ sep @ join sep (y # ys)"

definition format_report :: "stats \<Rightarrow> string" where
  "format_report st =
     (let lines = [''Words: '' @ str_int (words st),
                   ''Characters (including spaces): '' @ str_int (characters st),
                   ''Characters (no spaces): '' @ str_int (characters_no_spaces st),
                   ''Sentences: '' @ str_int (sentences st)];
          lines' = (if most_common_words st \<noteq> []
                    then lines @ [''Top words: '' @
                           join '', '' (map (\<lambda>(w, c). w @ ''('' @ str_int c @ '')'')
                                            (most_common_words st))]
                    else lines)
      in join [CHR 0x0A] lines')"

section \<open>Notions of the specification\<close>

text \<open>
  The distinct elements of a list in the order of their first occurrence, and the position
  of the first occurrence of an element (the length of the list when there is none).
\<close>

fun first_occ :: "'a list \<Rightarrow> 'a list" where
  "first_occ [] = []"
| "first_occ (x # xs) = x # filter (\<lambda>y. y \<noteq> x) (first_occ xs)"

definition first_index :: "'a list \<Rightarrow> 'a \<Rightarrow> nat" where
  "first_index xs x = length (takeWhile (\<lambda>y. y \<noteq> x) xs)"

text \<open>
  Sentence segmentation in the words of the specification: a segment is what stands before
  the next run of \<open>.\<close>, \<open>!\<close>, \<open>?\<close>, the run as a whole is the separator, and what
  follows the last run is the last segment.  A segment is blank when it is empty or has
  only whitespace in it.
\<close>

definition blank :: "string \<Rightarrow> bool" where
  "blank seg = list_all isspace seg"

function spec_segments :: "string \<Rightarrow> string list" where
  "spec_segments s =
     (case dropWhile (\<lambda>c. \<not> is_term c) s of
        [] \<Rightarrow> [takeWhile (\<lambda>c. \<not> is_term c) s]
      | r # rs \<Rightarrow> takeWhile (\<lambda>c. \<not> is_term c) s # spec_segments (dropWhile is_term rs))"
  by pat_completeness auto
termination
proof (relation "measure length")
  show "wf (measure length)" by simp
next
  fix s :: string and r rs
  assume a: "dropWhile (\<lambda>c. \<not> is_term c) s = r # rs"
  have "length (dropWhile is_term rs) \<le> length rs"
    by (rule length_dropWhile_le)
  moreover have "length (r # rs) \<le> length s"
    unfolding a [symmetric] by (rule length_dropWhile_le)
  ultimately show "(dropWhile is_term rs, s) \<in> measure length"
    by simp
qed

declare spec_segments.simps [simp del]

text \<open>
  Word extraction in the words of the specification.  A bounded run from \<open>i\<close> to \<open>j\<close> is
  a non-empty stretch of word characters, apostrophes and hyphens with a word boundary at
  each end.  A token span is a bounded run that is maximal: no bounded run other than
  itself contains it.
\<close>

definition bounded_run :: "string \<Rightarrow> nat \<Rightarrow> nat \<Rightarrow> bool" where
  "bounded_run s i j =
     (i < j \<and> j \<le> length s \<and> (\<forall>k\<in>{i..<j}. in_class (s ! k)) \<and>
      at_boundary s i \<and> at_boundary s j)"

definition token_span :: "string \<Rightarrow> nat \<times> nat \<Rightarrow> bool" where
  "token_span s p =
     (bounded_run s (fst p) (snd p) \<and>
      (\<forall>i\<in>{0..fst p}. \<forall>j\<in>{snd p..length s}.
         bounded_run s i j \<longrightarrow> i = fst p \<and> j = snd p))"

text \<open>
  The state of the search at position \<open>pos\<close>: no bounded run starts before \<open>pos\<close> and
  ends after it.
\<close>

definition unseen :: "string \<Rightarrow> nat \<Rightarrow> bool" where
  "unseen s pos = (\<forall>i\<in>{0..<pos}. \<forall>j\<in>{pos<..length s}. \<not> bounded_run s i j)"

section \<open>Character counts\<close>

lemma filter_dropWhile_neg: "filter (\<lambda>c. \<not> P c) (dropWhile P s) = filter (\<lambda>c. \<not> P c) s"
  by (induction s) auto

lemma sub_ws_filter: "sub_ws s = filter (\<lambda>c. \<not> isspace c) s"
  by (induction s rule: sub_ws.induct) (auto simp: filter_dropWhile_neg)

text \<open>
  C5: \<open>characters\<close> is the length of the input; \<open>characters_no_spaces\<close> is the length of
  what is left of the input once every run of whitespace is removed, that is the number of
  characters that are not whitespace, and it is at most \<open>characters\<close>.
\<close>

theorem character_counts:
  "characters (analyze_text s) = int (length s) \<and>
   characters_no_spaces (analyze_text s) = int (length (filter (\<lambda>c. \<not> isspace c) s)) \<and>
   characters_no_spaces (analyze_text s) \<le> characters (analyze_text s)"
  by (simp add: analyze_text_def sub_ws_filter)

section \<open>The empty input\<close>

text \<open>
  C6: on the empty string every count is 0 and the list of the most common words is empty.
\<close>

theorem analyze_text_empty:
  "analyze_text [] =
     \<lparr> words = 0, characters = 0, characters_no_spaces = 0, sentences = 0,
       most_common_words = [] \<rparr>"
  by code_simp

section \<open>Characters and string methods\<close>

lemma lower_char_idem: "lower_char (lower_char c) = lower_char c"
  by (auto simp: lower_char_def in_range_def)

lemma is_word_lower: "is_word c \<Longrightarrow> is_word (lower_char c)"
  by (auto simp: lower_char_def in_range_def is_word_def isalnum_def)

lemma is_word_not_quote: "is_word c \<Longrightarrow> \<not> is_quote c"
  by (auto simp: is_word_def isalnum_def in_range_def is_quote_def)

lemma set_strip_chars: "set (strip_chars P s) \<subseteq> set s"
proof
  fix x
  assume "x \<in> set (strip_chars P s)"
  then have "x \<in> set (dropWhile P (rev (dropWhile P s)))"
    by (simp add: strip_chars_def)
  then have "x \<in> set (rev (dropWhile P s))" by (rule set_dropWhileD)
  then have "x \<in> set (dropWhile P s)" by simp
  then show "x \<in> set s" by (rule set_dropWhileD)
qed

lemma last_dropWhile: "dropWhile P xs \<noteq> [] \<Longrightarrow> last (dropWhile P xs) = last xs"
  by (induction xs) (auto split: if_splits)

lemma strip_chars_ends:
  assumes "strip_chars P s \<noteq> []"
  shows "\<not> P (hd (strip_chars P s))" and "\<not> P (last (strip_chars P s))"
proof -
  let ?ys = "dropWhile P s"
  let ?zs = "dropWhile P (rev ?ys)"
  from assms have zs: "?zs \<noteq> []" by (simp add: strip_chars_def)
  have ys: "?ys \<noteq> []"
  proof
    assume "?ys = []"
    then have "?zs = []" by (simp del: dropWhile_eq_Nil_conv)
    with zs show False ..
  qed
  have "last (strip_chars P s) = hd ?zs"
    using zs by (simp add: strip_chars_def last_rev)
  with hd_dropWhile [OF zs] show "\<not> P (last (strip_chars P s))" by simp
  have "hd (strip_chars P s) = last ?zs"
    using zs by (simp add: strip_chars_def hd_rev)
  also have "\<dots> = last (rev ?ys)" using zs by (rule last_dropWhile)
  also have "\<dots> = hd ?ys" using ys by (simp add: last_rev)
  finally show "\<not> P (hd (strip_chars P s))" using hd_dropWhile [OF ys] by simp
qed

lemma strip_chars_id:
  assumes "s \<noteq> []" "\<not> P (hd s)" "\<not> P (last s)"
  shows "strip_chars P s = s"
proof -
  from assms have 1: "dropWhile P s = s" by (cases s) auto
  from assms have "rev s \<noteq> []" "\<not> P (hd (rev s))" by (simp_all add: hd_rev)
  then have "dropWhile P (rev s) = rev s" by (cases "rev s") auto
  with 1 show ?thesis by (simp add: strip_chars_def)
qed

lemma strip_chars_idem: "strip_chars P (strip_chars P s) = strip_chars P s"
proof (cases "strip_chars P s = []")
  case True
  show ?thesis unfolding True by (simp add: strip_chars_def)
next
  case False
  from strip_chars_id [OF False strip_chars_ends [OF False]] show ?thesis .
qed

lemma strip_chars_nonempty: "strip_chars P s \<noteq> [] \<longleftrightarrow> \<not> list_all P s"
proof -
  have "dropWhile P (rev (dropWhile P s)) \<noteq> [] \<longleftrightarrow> dropWhile P s \<noteq> []"
  proof
    assume "dropWhile P s \<noteq> []"
    then have ys: "dropWhile P s \<noteq> []" .
    have "\<not> P (hd (dropWhile P s))" using hd_dropWhile [OF ys] .
    then have "\<exists>x\<in>set (rev (dropWhile P s)). \<not> P x" using ys
      by (metis hd_in_set set_rev)
    then show "dropWhile P (rev (dropWhile P s)) \<noteq> []"
      by simp
  next
    assume zs: "dropWhile P (rev (dropWhile P s)) \<noteq> []"
    show "dropWhile P s \<noteq> []"
    proof
      assume "dropWhile P s = []"
      then have "dropWhile P (rev (dropWhile P s)) = []" by (simp del: dropWhile_eq_Nil_conv)
      with zs show False ..
    qed
  qed
  then have "strip_chars P s \<noteq> [] \<longleftrightarrow> dropWhile P s \<noteq> []"
    by (simp add: strip_chars_def)
  also have "\<dots> \<longleftrightarrow> \<not> list_all P s"
    by (simp add: list_all_iff)
  finally show ?thesis .
qed

lemma strip_blank: "strip seg \<noteq> [] \<longleftrightarrow> \<not> blank seg"
  by (simp add: strip_def blank_def strip_chars_nonempty)

section \<open>Sentences\<close>

lemma spec_segments_Nil: "spec_segments [] = [[]]"
  by (simp add: spec_segments.simps [of "[]"])

lemma spec_segments_term:
  "is_term c \<Longrightarrow> spec_segments (c # s) = [] # spec_segments (dropWhile is_term s)"
  by (simp add: spec_segments.simps [of "c # s"])

lemma spec_segments_other:
  "spec_segments (c # s) = (c # hd (spec_segments s)) # tl (spec_segments s)" if "\<not> is_term c"
proof (cases "dropWhile (\<lambda>c. \<not> is_term c) s")
  case Nil
  with that show ?thesis
    by (simp add: spec_segments.simps [of "c # s"] spec_segments.simps [of s]
          del: dropWhile_eq_Nil_conv)
next
  case (Cons r rs)
  with that show ?thesis
    by (simp add: spec_segments.simps [of "c # s"] spec_segments.simps [of s])
qed

lemma spec_segments_nonempty: "spec_segments s \<noteq> []"
  by (simp add: spec_segments.simps [of s] split: list.splits)

lemma re_split_spec:
  "re_split cur s = (rev cur @ hd (spec_segments s)) # tl (spec_segments s)"
proof (induction cur s rule: re_split.induct)
  case (1 cur)
  then show ?case by (simp add: spec_segments_Nil)
next
  case (2 cur c s)
  show ?case
  proof (cases "is_term c")
    case True
    with 2 spec_segments_nonempty [of "dropWhile is_term s"] show ?thesis
      by (simp add: spec_segments_term)
  next
    case False
    with 2 show ?thesis by (simp add: spec_segments_other)
  qed
qed

lemma re_split_eq_spec: "re_split [] s = spec_segments s"
  using spec_segments_nonempty [of s] by (simp add: re_split_spec)

text \<open>
  C2: \<open>sentences\<close> is the number of segments that are not blank, where the segments are
  the pieces of the input between the runs of \<open>.\<close>, \<open>!\<close>, \<open>?\<close>; the text after the last
  run is a segment, so \<open>One. Two\<close> has the two segments \<open>One\<close> and \<open> Two\<close> and two
  sentences.
\<close>

theorem sentence_count:
  "sentences (analyze_text s) = int (length (filter (\<lambda>seg. \<not> blank seg) (spec_segments s))) \<and>
   spec_segments ''One. Two'' = [''One'', '' Two''] \<and>
   sentences (analyze_text ''One. Two'') = 2"
proof -
  have "sentences (analyze_text s) = int (length (filter (\<lambda>seg. \<not> blank seg) (spec_segments s)))"
    by (simp add: analyze_text_def re_split_eq_spec strip_blank)
  moreover have "spec_segments ''One. Two'' = [''One'', '' Two'']"
    by code_simp
  moreover have "sentences (analyze_text ''One. Two'') = 2"
    by code_simp
  ultimately show ?thesis by blast
qed


section \<open>The most common words\<close>

lemma counter_add_keys:
  "map fst (counter_add w acc) = (if w \<in> set (map fst acc) then map fst acc else map fst acc @ [w])"
  by (induction w acc rule: counter_add.induct) auto

lemma foldl_counter_keys:
  "map fst (foldl (\<lambda>acc w. counter_add w acc) acc ws) =
     map fst acc @ filter (\<lambda>w. w \<notin> set (map fst acc)) (first_occ ws)"
proof (induction ws arbitrary: acc)
  case Nil
  then show ?case by simp
next
  case (Cons w ws)
  show ?case
  proof (cases "w \<in> set (map fst acc)")
    case True
    have "filter (\<lambda>w. w \<notin> set (map fst acc)) (filter (\<lambda>y. y \<noteq> w) (first_occ ws)) =
          filter (\<lambda>w. w \<notin> set (map fst acc)) (first_occ ws)"
      using True by (auto intro!: filter_cong)
    with True show ?thesis
      by (simp add: Cons.IH counter_add_keys del: set_map)
  next
    case False
    have "filter (\<lambda>x. x \<notin> set (map fst acc @ [w])) (first_occ ws) =
          filter (\<lambda>w. w \<notin> set (map fst acc)) (filter (\<lambda>y. y \<noteq> w) (first_occ ws))"
      by (auto intro!: filter_cong)
    with False show ?thesis
      by (simp add: Cons.IH counter_add_keys del: set_map)
  qed
qed

lemma Counter_keys: "map fst (Counter ws) = first_occ ws"
  by (simp add: Counter_def foldl_counter_keys)

lemma set_first_occ: "set (first_occ ws) = set ws"
  by (induction ws) auto

lemma distinct_first_occ: "distinct (first_occ ws)"
  by (induction ws) (auto simp: set_first_occ)

lemma length_Counter: "length (Counter ws) = card (set ws)"
proof -
  have "length (Counter ws) = length (map fst (Counter ws))" by simp
  also have "\<dots> = card (set ws)"
    unfolding Counter_keys using distinct_card [OF distinct_first_occ, of ws]
    by (simp add: set_first_occ)
  finally show ?thesis .
qed

lemma length_most_common: "length (most_common n items) = min n (length items)"
  by (simp add: most_common_def min.commute)

lemma set_most_common: "set (most_common n items) \<subseteq> set items"
  using set_take_subset [of n "sort_key (\<lambda>p. - snd p) items"] by (simp add: most_common_def)

lemma Counter_key_set: "fst ` set (Counter ws) = set ws"
  using Counter_keys [of ws] set_first_occ [of ws] by (metis set_map)

lemma most_common_all:
  "length items \<le> n \<Longrightarrow> set (most_common n items) = set items"
  by (simp add: most_common_def)

lemma top_words_all:
  "card (set (map normalise (findall s))) \<le> 5 \<Longrightarrow>
   fst ` set (most_common_words (analyze_text s)) = set (map normalise (findall s))"
proof -
  assume "card (set (map normalise (findall s))) \<le> 5"
  then have "length (Counter (map normalise (findall s))) \<le> 5"
    by (simp only: length_Counter)
  from most_common_all [OF this] show ?thesis
    by (simp add: analyze_text_def Counter_key_set del: set_map)
qed

text \<open>
  C4: the number of entries of \<open>most_common_words\<close> is the smaller of 5 and the number of
  distinct words after lowercasing and stripping quotes; with at most five distinct words
  every one of them has an entry, and with no words the list is empty.
\<close>

theorem top_words_length:
  "length (most_common_words (analyze_text s)) = min 5 (card (set (map normalise (findall s)))) \<and>
   (card (set (map normalise (findall s))) \<le> 5 \<longrightarrow>
      fst ` set (most_common_words (analyze_text s)) = set (map normalise (findall s))) \<and>
   (findall s = [] \<longrightarrow> most_common_words (analyze_text s) = [])"
proof -
  have "length (most_common_words (analyze_text s)) = min 5 (card (set (map normalise (findall s))))"
    by (simp add: analyze_text_def length_most_common length_Counter del: set_map)
  moreover have "findall s = [] \<longrightarrow> most_common_words (analyze_text s) = []"
    by (simp add: analyze_text_def Counter_def most_common_def)
  ultimately show ?thesis using top_words_all [of s] by blast
qed

theorem top_words_length_witness:
  "findall ''... ?'' = [] \<and> most_common_words (analyze_text ''... ?'') = [] \<and>
   length (most_common_words (analyze_text ''a b c d e f a'')) = 5 \<and>
   fst ` set (most_common_words (analyze_text ''b a a b'')) = {''a'', ''b''}"
proof -
  have e: "findall ''... ?'' = []" by code_simp
  have c6: "card (set (map normalise (findall ''a b c d e f a''))) = 6" by code_simp
  have s2: "set (map normalise (findall ''b a a b'')) = {''a'', ''b''}" by code_simp
  have c2: "card (set (map normalise (findall ''b a a b''))) \<le> 5" by code_simp
  from top_words_length [of "''a b c d e f a''"] c6
  have 1: "length (most_common_words (analyze_text ''a b c d e f a'')) = 5" by simp
  from top_words_length [of "''... ?''"] e
  have 2: "most_common_words (analyze_text ''... ?'') = []" by blast
  from top_words_length [of "''b a a b''"] c2
  have "fst ` set (most_common_words (analyze_text ''b a a b'')) =
          set (map normalise (findall ''b a a b''))" by blast
  then have 3: "fst ` set (most_common_words (analyze_text ''b a a b'')) = {''a'', ''b''}"
    by (simp only: s2)
  from e 1 2 3 show ?thesis by blast
qed

lemma set_normalise: "set (normalise t) \<subseteq> lower_char ` set t"
  using set_strip_chars [of is_quote "lower t"] by (simp add: normalise_def strip_quotes_def lower_def)

lemma lower_normalise: "lower (normalise t) = normalise t"
  unfolding lower_def
proof (rule map_idI)
  fix c assume "c \<in> set (normalise t)"
  with set_normalise obtain d where "c = lower_char d" by blast
  then show "lower_char c = c" by (simp add: lower_char_idem)
qed

lemma strip_quotes_normalise: "strip_quotes (normalise t) = normalise t"
  by (simp add: normalise_def strip_quotes_def strip_chars_idem)

lemma normalise_ends:
  "normalise t = [] \<or> (\<not> is_quote (hd (normalise t)) \<and> \<not> is_quote (last (normalise t)))"
  using strip_chars_ends [of is_quote "lower t"] by (auto simp: normalise_def strip_quotes_def)

text \<open>
  C7: every word of \<open>most_common_words\<close> is the lowercased and quote-stripped form of an
  extracted word; it is lowercase in the sense that \<open>lower\<close> leaves it as it is, and it has
  no single or double quote at either end (\<open>strip_quotes\<close> leaves it as it is).  Nothing is
  said about characters that \<open>lower\<close> does not change.
\<close>

theorem top_words_normalised:
  "\<forall>(w, c) \<in> set (most_common_words (analyze_text s)).
     w \<in> set (map normalise (findall s)) \<and>
     lower w = w \<and> strip_quotes w = w \<and>
     (w = [] \<or> (\<not> is_quote (hd w) \<and> \<not> is_quote (last w)))"
proof (clarify)
  fix w c
  assume "(w, c) \<in> set (most_common_words (analyze_text s))"
  with set_most_common have "(w, c) \<in> set (Counter (map normalise (findall s)))"
    by (auto simp: analyze_text_def)
  then have "w \<in> fst ` set (Counter (map normalise (findall s)))" by force
  then have m: "w \<in> set (map normalise (findall s))" by (simp only: Counter_key_set)
  then obtain t where w: "w = normalise t" by auto
  from lower_normalise [of t] strip_quotes_normalise [of t] normalise_ends [of t]
  have "lower w = w \<and> strip_quotes w = w \<and>
     (w = [] \<or> (\<not> is_quote (hd w) \<and> \<not> is_quote (last w)))"
    unfolding w by blast
  with m show "w \<in> set (map normalise (findall s)) \<and>
     lower w = w \<and> strip_quotes w = w \<and>
     (w = [] \<or> (\<not> is_quote (hd w) \<and> \<not> is_quote (last w)))"
    by blast
qed

theorem top_words_normalised_witness:
  "most_common_words (analyze_text ''The CAT's hat. the Cat's'') = [(''the'', 2), ([CHR ''c'', CHR ''a'', CHR ''t'', CHR 0x27, CHR ''s''], 2), (''hat'', 1)] \<and>
   lower ''the'' = ''the'' \<and> strip_quotes ''the'' = ''the''"
proof -
  have m: "most_common_words (analyze_text ''The CAT's hat. the Cat's'') = [(''the'', 2), ([CHR ''c'', CHR ''a'', CHR ''t'', CHR 0x27, CHR ''s''], 2), (''hat'', 1)]"
    by code_simp
  with top_words_normalised [of "''The CAT's hat. the Cat's''"] show ?thesis by simp
qed

section \<open>Totality and degenerate inputs\<close>

lemma no_word_no_boundary: "list_all (\<lambda>c. \<not> is_word c) s \<Longrightarrow> \<not> at_boundary s i"
  by (auto simp: at_boundary_def list_all_iff)

lemma no_word_no_spans: "list_all (\<lambda>c. \<not> is_word c) s \<Longrightarrow> findall_spans s pos = []"
proof (induction s pos rule: findall_spans.induct)
  case (1 s pos)
  show ?case
  proof (cases "length s < pos")
    case True
    then show ?thesis by (simp add: findall_spans.simps [of s pos])
  next
    case False
    have m: "match_at s pos = None"
      using no_word_no_boundary [OF "1.prems"] by (simp add: match_at_def)
    from "1.IH"(1) [OF False m "1.prems"] False m show ?thesis
      by (simp add: findall_spans.simps [of s pos])
  qed
qed

lemma no_word_findall: "list_all (\<lambda>c. \<not> is_word c) s \<Longrightarrow> findall s = []"
  by (simp add: findall_def no_word_no_spans)

lemma isspace_not_word: "isspace c \<Longrightarrow> \<not> is_word c"
  by (auto simp: isspace_def is_word_def isalnum_def in_range_def)

lemma isspace_not_term: "isspace c \<Longrightarrow> \<not> is_term c"
  by (auto simp: isspace_def is_term_def in_range_def)

lemma re_split_no_term: "list_all (\<lambda>c. \<not> is_term c) s \<Longrightarrow> re_split cur s = [rev cur @ s]"
  by (induction cur s rule: re_split.induct) auto

lemma Counter_Nil: "Counter [] = []"
  by (simp add: Counter_def)

lemma most_common_Nil: "most_common n [] = []"
  by (simp add: most_common_def)

lemma sentences_no_term:
  "list_all (\<lambda>c. \<not> is_term c) s \<Longrightarrow> sentences (analyze_text s) = (if blank s then 0 else 1)"
  by (simp add: analyze_text_def re_split_no_term strip_blank)

lemma blank_text:
  assumes "blank s"
  shows "words (analyze_text s) = 0" "characters_no_spaces (analyze_text s) = 0"
    "sentences (analyze_text s) = 0" "most_common_words (analyze_text s) = []"
proof -
  from assms have w: "list_all (\<lambda>c. \<not> is_word c) s" and t: "list_all (\<lambda>c. \<not> is_term c) s"
    by (auto simp: blank_def list_all_iff isspace_not_word isspace_not_term)
  from no_word_findall [OF w] show "words (analyze_text s) = 0"
    and "most_common_words (analyze_text s) = []"
    by (simp_all add: analyze_text_def Counter_Nil most_common_Nil)
  from sentences_no_term [OF t] assms show "sentences (analyze_text s) = 0" by simp
  from assms show "characters_no_spaces (analyze_text s) = 0"
    by (simp add: analyze_text_def sub_ws_filter blank_def list_all_iff)
qed

text \<open>
  C9: \<open>analyze_text\<close> is a total function: it has no failing branch, and each of its
  loops (the search of \<open>findall\<close>, the greedy repeat and its backtracking, the
  substitution and the split) is a recursive function with a termination proof, so every
  string has a result.  The result has counts that are not negative and at most five
  words; a text without matches has \<open>words = 0\<close> and no most common words, a text with no
  word character has no matches, a text without \<open>.\<close>, \<open>!\<close>, \<open>?\<close> has one sentence, or
  none when it is blank, and a blank text has zero everywhere but in \<open>characters\<close>.
\<close>

theorem analyze_text_total:
  "0 \<le> words (analyze_text s) \<and> 0 \<le> characters (analyze_text s) \<and>
   0 \<le> characters_no_spaces (analyze_text s) \<and> 0 \<le> sentences (analyze_text s) \<and>
   length (most_common_words (analyze_text s)) \<le> 5 \<and>
   (findall s = [] \<longrightarrow>
      words (analyze_text s) = 0 \<and> most_common_words (analyze_text s) = []) \<and>
   (list_all (\<lambda>c. \<not> is_word c) s \<longrightarrow> findall s = []) \<and>
   (list_all (\<lambda>c. \<not> is_term c) s \<longrightarrow>
      sentences (analyze_text s) = (if blank s then 0 else 1)) \<and>
   (blank s \<longrightarrow>
      words (analyze_text s) = 0 \<and> characters_no_spaces (analyze_text s) = 0 \<and>
      sentences (analyze_text s) = 0 \<and> most_common_words (analyze_text s) = [])"
proof -
  have "0 \<le> words (analyze_text s) \<and> 0 \<le> characters (analyze_text s) \<and>
   0 \<le> characters_no_spaces (analyze_text s) \<and> 0 \<le> sentences (analyze_text s)"
    by (simp add: analyze_text_def)
  moreover have "length (most_common_words (analyze_text s)) \<le> 5"
    by (simp add: analyze_text_def length_most_common)
  moreover have "findall s = [] \<longrightarrow>
      words (analyze_text s) = 0 \<and> most_common_words (analyze_text s) = []"
    by (simp add: analyze_text_def Counter_Nil most_common_Nil)
  ultimately show ?thesis
    using no_word_findall [of s] sentences_no_term [of s] blank_text [of s] by blast
qed

theorem analyze_text_total_witness:
  "analyze_text ''?! ...'' =
     \<lparr> words = 0, characters = 6, characters_no_spaces = 5, sentences = 0,
       most_common_words = [] \<rparr> \<and>
   analyze_text ''no end'' =
     \<lparr> words = 2, characters = 6, characters_no_spaces = 5, sentences = 1,
       most_common_words = [(''no'', 1), (''end'', 1)] \<rparr> \<and>
   analyze_text [CHR '' '', CHR 0x09, CHR 0x0A] =
     \<lparr> words = 0, characters = 3, characters_no_spaces = 0, sentences = 0,
       most_common_words = [] \<rparr>"
proof -
  have 1: "list_all (\<lambda>c. \<not> is_word c) ''?! ...''" by code_simp
  have 2: "list_all (\<lambda>c. \<not> is_term c) ''no end''" by code_simp
  have 3: "blank [CHR '' '', CHR 0x09, CHR 0x0A]" by code_simp
  have 4: "\<not> blank ''no end''" by code_simp
  have a: "analyze_text ''?! ...'' =
     \<lparr> words = 0, characters = 6, characters_no_spaces = 5, sentences = 0,
       most_common_words = [] \<rparr>" by code_simp
  have b: "analyze_text ''no end'' =
     \<lparr> words = 2, characters = 6, characters_no_spaces = 5, sentences = 1,
       most_common_words = [(''no'', 1), (''end'', 1)] \<rparr>" by code_simp
  have c: "analyze_text [CHR '' '', CHR 0x09, CHR 0x0A] =
     \<lparr> words = 0, characters = 3, characters_no_spaces = 0, sentences = 0,
       most_common_words = [] \<rparr>" by code_simp
  from analyze_text_total [of "''?! ...''"] analyze_text_total [of "''no end''"]
    analyze_text_total [of "[CHR '' '', CHR 0x09, CHR 0x0A]"] 1 2 3 4 a b c
  show ?thesis by simp
qed

section \<open>The report\<close>

lemma digits_range: "digits n \<noteq> [] \<and> list_all (in_range 48 57) (digits n)"
proof (induction n rule: digits.induct)
  case (1 n)
  show ?case
  proof (cases "n < 10")
    case True
    then show ?thesis by (simp add: digits.simps [of n] in_range_def)
  next
    case False
    have "n mod 10 < 10" by simp
    then have "in_range 48 57 (char_of (48 + n mod 10))"
      by (simp add: in_range_def)
    with False "1.IH" show ?thesis by (simp add: digits.simps [of n])
  qed
qed

lemma str_int_nonempty: "str_int i \<noteq> []"
  using digits_range by (simp add: str_int_def)

lemma str_int_no_newline: "CHR 0x0A \<notin> set (str_int i)"
proof -
  have "CHR 0x0A \<notin> set (digits n)" for n
    using digits_range [of n] by (auto simp: list_all_iff in_range_def)
  then show ?thesis by (simp add: str_int_def)
qed

lemma join_nonempty: "xs \<noteq> [] \<Longrightarrow> last xs \<noteq> [] \<Longrightarrow> join sep xs \<noteq> []"
  by (induction sep xs rule: join.induct) auto

lemma last_join: "xs \<noteq> [] \<Longrightarrow> last xs \<noteq> [] \<Longrightarrow> last (join sep xs) = last (last xs)"
proof (induction sep xs rule: join.induct)
  case (3 sep x y ys)
  then have "join sep (y # ys) \<noteq> []" by (intro join_nonempty) simp_all
  with 3 show ?case by simp
qed simp_all

lemma filter_join:
  "filter P sep = [] \<Longrightarrow> list_all (\<lambda>x. filter P x = []) xs \<Longrightarrow> filter P (join sep xs) = []"
  by (induction sep xs rule: join.induct) auto

text \<open>
  C8: the report is the four lines for the word count, the character count with spaces,
  the character count without spaces and the sentence count, in this order and separated
  by newlines, followed by a newline and the line of the top words, each as
  \<open>word(count)\<close>, separated by a comma and a space and in the order of the record, exactly
  when \<open>most_common_words\<close> is not empty.  The report does not end with a newline, and when
  no word has a newline in it the report has three newlines, or four with the line of the
  top words.
\<close>

theorem format_report_layout:
  "format_report st =
     ''Words: '' @ str_int (words st) @ [CHR 0x0A] @
     ''Characters (including spaces): '' @ str_int (characters st) @ [CHR 0x0A] @
     ''Characters (no spaces): '' @ str_int (characters_no_spaces st) @ [CHR 0x0A] @
     ''Sentences: '' @ str_int (sentences st) @
     (if most_common_words st = [] then []
      else [CHR 0x0A] @ ''Top words: '' @
           join '', '' (map (\<lambda>(w, c). w @ ''('' @ str_int c @ '')'') (most_common_words st))) \<and>
   format_report st \<noteq> [] \<and> last (format_report st) \<noteq> CHR 0x0A \<and>
   (list_all (\<lambda>(w, c). CHR 0x0A \<notin> set w) (most_common_words st) \<longrightarrow>
      length (filter (\<lambda>ch. ch = CHR 0x0A) (format_report st)) =
        (if most_common_words st = [] then 3 else 4))"
proof -
  let ?nl = "CHR 0x0A"
  let ?e = "\<lambda>(w, c). w @ ''('' @ str_int c @ '')''"
  let ?top = "join '', '' (map ?e (most_common_words st))"
  have layout: "format_report st =
     ''Words: '' @ str_int (words st) @ [?nl] @
     ''Characters (including spaces): '' @ str_int (characters st) @ [?nl] @
     ''Characters (no spaces): '' @ str_int (characters_no_spaces st) @ [?nl] @
     ''Sentences: '' @ str_int (sentences st) @
     (if most_common_words st = [] then [] else [?nl] @ ''Top words: '' @ ?top)"
    by (simp add: format_report_def)
  have top_last: "?top \<noteq> [] \<and> last ?top = CHR '')''" if "most_common_words st \<noteq> []"
  proof -
    let ?xs = "map ?e (most_common_words st)"
    from that have ne: "?xs \<noteq> []" by simp
    have "last ?xs = ?e (last (most_common_words st))"
      using that by (simp add: last_map)
    then have l: "last ?xs \<noteq> [] \<and> last (last ?xs) = CHR '')''"
      by (simp add: case_prod_beta)
    with ne last_join [of ?xs "'', ''"] join_nonempty [of ?xs "'', ''"] show ?thesis by simp
  qed
  have ne: "format_report st \<noteq> []" unfolding layout by simp
  have last: "last (format_report st) \<noteq> ?nl"
  proof (cases "most_common_words st = []")
    case True
    have "last (str_int (sentences st)) \<in> set (str_int (sentences st))"
      using str_int_nonempty by simp
    with str_int_no_newline [of "sentences st"] have "last (str_int (sentences st)) \<noteq> ?nl"
      by metis
    with True str_int_nonempty show ?thesis unfolding layout by simp
  next
    case False
    with top_last show ?thesis unfolding layout by simp
  qed
  have count: "length (filter (\<lambda>ch. ch = ?nl) (format_report st)) =
        (if most_common_words st = [] then 3 else 4)"
    if h: "list_all (\<lambda>(w, c). ?nl \<notin> set w) (most_common_words st)"
  proof -
    have s: "filter (\<lambda>ch. ch = ?nl) (str_int i) = []" for i
      using str_int_no_newline [of i] by (auto simp: filter_empty_conv)
    have "list_all (\<lambda>x. filter (\<lambda>ch. ch = ?nl) x = []) (map ?e (most_common_words st))"
      using h str_int_no_newline by (auto simp: list_all_iff filter_empty_conv)
    then have "filter (\<lambda>ch. ch = ?nl) ?top = []"
      by (intro filter_join) simp_all
    then show ?thesis unfolding layout by (simp add: s)
  qed
  from layout ne last count show ?thesis by blast
qed

theorem format_report_layout_witness:
  "format_report \<lparr> words = 4, characters = 7, characters_no_spaces = 4, sentences = 1,
                   most_common_words = [(''b'', 2), (''a'', 2)] \<rparr> =
     ''Words: 4'' @ [CHR 0x0A] @ ''Characters (including spaces): 7'' @ [CHR 0x0A] @
     ''Characters (no spaces): 4'' @ [CHR 0x0A] @ ''Sentences: 1'' @ [CHR 0x0A] @
     ''Top words: b(2), a(2)'' \<and>
   length (filter (\<lambda>ch. ch = CHR 0x0A)
     (format_report \<lparr> words = 4, characters = 7, characters_no_spaces = 4, sentences = 1,
                      most_common_words = [(''b'', 2), (''a'', 2)] \<rparr>)) = 4"
proof -
  let ?st = "\<lparr> words = 4, characters = 7, characters_no_spaces = 4, sentences = 1,
                   most_common_words = [(''b'', 2), (''a'', 2)] \<rparr>"
  have h: "list_all (\<lambda>(w, c). CHR 0x0A \<notin> set w) (most_common_words ?st)" by simp
  have d: "str_int 4 = ''4''" "str_int 7 = ''7''" "str_int 1 = ''1''" "str_int 2 = ''2''"
    by code_simp+
  from format_report_layout [of ?st] h d show ?thesis by simp
qed

section \<open>The order of the most common words\<close>

lemma first_index_Nil: "first_index [] x = 0"
  by (simp add: first_index_def)

lemma first_index_Cons: "first_index (y # ys) x = (if y = x then 0 else Suc (first_index ys x))"
  by (simp add: first_index_def)

lemma first_index_filter:
  "Q a \<Longrightarrow> Q b \<Longrightarrow>
   first_index (filter Q xs) a < first_index (filter Q xs) b \<longleftrightarrow>
   first_index xs a < first_index xs b"
  by (induction xs) (auto simp: first_index_Cons first_index_Nil)

lemma first_index_first_occ:
  "first_index (first_occ ws) a < first_index (first_occ ws) b \<longleftrightarrow>
   first_index ws a < first_index ws b"
proof (induction ws)
  case Nil
  then show ?case by simp
next
  case (Cons x xs)
  show ?case
  proof (cases "x = a \<or> x = b")
    case True
    then show ?thesis by (auto simp: first_index_Cons)
  next
    case False
    then have "first_index (filter (\<lambda>y. y \<noteq> x) (first_occ xs)) a
                 < first_index (filter (\<lambda>y. y \<noteq> x) (first_occ xs)) b \<longleftrightarrow>
               first_index (first_occ xs) a < first_index (first_occ xs) b"
      by (intro first_index_filter) auto
    with False Cons show ?thesis by (simp add: first_index_Cons)
  qed
qed

lemma first_index_keys:
  "distinct (map fst items) \<Longrightarrow> p \<in> set items \<Longrightarrow>
   first_index (map fst items) (fst p) = first_index items p"
proof (induction items)
  case Nil
  then show ?case by simp
next
  case (Cons y ys)
  show ?case
  proof (cases "y = p")
    case True
    then show ?thesis by (simp add: first_index_Cons)
  next
    case False
    with Cons.prems have p: "p \<in> set ys" by simp
    then have "fst p \<in> fst ` set ys" by (rule imageI)
    with Cons.prems have "fst y \<noteq> fst p" by auto
    with False Cons p show ?thesis by (simp add: first_index_Cons)
  qed
qed

lemma first_index_sort_key:
  assumes "f p = f q"
  shows "first_index (sort_key f xs) p < first_index (sort_key f xs) q \<longleftrightarrow>
         first_index xs p < first_index xs q"
proof -
  let ?Q = "\<lambda>y. f y = f p"
  have "first_index (sort_key f xs) p < first_index (sort_key f xs) q \<longleftrightarrow>
        first_index (filter ?Q (sort_key f xs)) p < first_index (filter ?Q (sort_key f xs)) q"
    using assms by (intro first_index_filter [symmetric]) simp_all
  also have "filter ?Q (sort_key f xs) = filter ?Q xs"
    by (rule sort_key_stable)
  also have "first_index (filter ?Q xs) p < first_index (filter ?Q xs) q \<longleftrightarrow>
        first_index xs p < first_index xs q"
    using assms by (intro first_index_filter) simp_all
  finally show ?thesis .
qed

lemma first_index_take:
  "p \<in> set (take n xs) \<Longrightarrow> first_index (take n xs) p = first_index xs p"
proof (induction xs arbitrary: n)
  case Nil
  then show ?case by simp
next
  case (Cons x xs)
  then show ?case by (cases n) (auto simp: first_index_Cons)
qed

lemma distinct_keys_sort_key:
  "distinct (map fst (sort_key f items)) = distinct (map fst items)"
  by (simp add: distinct_map)

lemma distinct_Counter: "distinct (map fst (Counter ws))"
  by (simp only: Counter_keys distinct_first_occ)

lemma distinct_most_common: "distinct (map fst (most_common n (Counter ws)))"
  unfolding most_common_def take_map [symmetric]
  by (rule distinct_take) (simp only: distinct_keys_sort_key distinct_Counter)

lemma map_of_counter_add:
  "map_of (counter_add w acc) =
     (map_of acc)(w \<mapsto> (case map_of acc w of None \<Rightarrow> 1 | Some n \<Rightarrow> n + 1))"
  by (induction w acc rule: counter_add.induct) (auto simp: fun_eq_iff)

lemma map_of_foldl_counter:
  "map_of (foldl (\<lambda>acc w. counter_add w acc) acc ws) k =
     (if k \<in> set ws
      then Some (int (count_list ws k) + (case map_of acc k of None \<Rightarrow> 0 | Some n \<Rightarrow> n))
      else map_of acc k)"
proof (induction ws arbitrary: acc)
  case Nil
  then show ?case by simp
next
  case (Cons w ws)
  show ?case
    by (simp add: Cons.IH map_of_counter_add split: option.splits)
qed

lemma Counter_counts: "(w, c) \<in> set (Counter ws) \<Longrightarrow> c = int (count_list ws w)"
proof -
  assume a: "(w, c) \<in> set (Counter ws)"
  then have "map_of (Counter ws) w = Some c"
    using distinct_Counter [of ws] by simp
  moreover have "map_of (Counter ws) w =
     (if w \<in> set ws then Some (int (count_list ws w)) else None)"
    by (simp add: Counter_def map_of_foldl_counter)
  ultimately show ?thesis by (simp split: if_splits)
qed

lemma sorted_most_common: "sorted_wrt (\<lambda>p q. snd q \<le> snd p) (most_common n items)"
proof -
  have "sorted (map (\<lambda>p. - snd p) (sort_key (\<lambda>p. - snd p) items))"
    by (rule sorted_sort_key)
  then have "sorted_wrt (\<lambda>p q. snd q \<le> snd p) (sort_key (\<lambda>p. - snd p) items)"
    by (simp add: sorted_map)
  then show ?thesis
    unfolding most_common_def by (rule sorted_wrt_take)
qed

lemma most_common_order:
  assumes p: "p \<in> set (most_common n (Counter ws))"
    and q: "q \<in> set (most_common n (Counter ws))"
    and eq: "snd p = snd q"
  shows "first_index (map fst (most_common n (Counter ws))) (fst p)
           < first_index (map fst (most_common n (Counter ws))) (fst q) \<longleftrightarrow>
         first_index ws (fst p) < first_index ws (fst q)"
proof -
  let ?C = "Counter ws"
  let ?f = "\<lambda>p :: 'a \<times> int. - snd p"
  let ?top = "most_common n ?C"
  from p q set_most_common have pC: "p \<in> set ?C" and qC: "q \<in> set ?C" by blast+
  from p q have pt: "p \<in> set (take n (sort_key ?f ?C))" and qt: "q \<in> set (take n (sort_key ?f ?C))"
    by (simp_all add: most_common_def)
  have "first_index (map fst ?top) (fst p) < first_index (map fst ?top) (fst q) \<longleftrightarrow>
        first_index ?top p < first_index ?top q"
    using first_index_keys [OF distinct_most_common p] first_index_keys [OF distinct_most_common q]
    by simp
  also have "\<dots> \<longleftrightarrow> first_index (sort_key ?f ?C) p < first_index (sort_key ?f ?C) q"
    using first_index_take [OF pt] first_index_take [OF qt] by (simp add: most_common_def)
  also have "\<dots> \<longleftrightarrow> first_index ?C p < first_index ?C q"
    using eq by (intro first_index_sort_key) simp
  also have "\<dots> \<longleftrightarrow> first_index (map fst ?C) (fst p) < first_index (map fst ?C) (fst q)"
    using first_index_keys [OF distinct_Counter pC] first_index_keys [OF distinct_Counter qC]
    by simp
  also have "\<dots> \<longleftrightarrow> first_index ws (fst p) < first_index ws (fst q)"
    unfolding Counter_keys by (rule first_index_first_occ)
  finally show ?thesis .
qed

lemma in_take_first_index:
  "x \<in> set (take n xs) \<longleftrightarrow> x \<in> set xs \<and> first_index xs x < n"
proof (induction xs arbitrary: n)
  case Nil
  then show ?case by simp
next
  case (Cons y ys)
  then show ?case by (cases n) (auto simp: first_index_Cons)
qed

lemma Counter_item: "w \<in> set ws \<Longrightarrow> (w, int (count_list ws w)) \<in> set (Counter ws)"
proof -
  assume "w \<in> set ws"
  then have "map_of (Counter ws) w = Some (int (count_list ws w))"
    by (simp add: Counter_def map_of_foldl_counter)
  then show ?thesis by (rule map_of_SomeD)
qed

lemma most_common_tie_included:
  assumes q: "(v, d) \<in> set (most_common n (Counter ws))"
    and u: "u \<in> set ws" "int (count_list ws u) = d"
    and lt: "first_index ws u < first_index ws v"
  shows "(u, d) \<in> set (most_common n (Counter ws))"
proof -
  let ?C = "Counter ws"
  let ?f = "\<lambda>p :: 'a \<times> int. - snd p"
  from u Counter_item [of u ws] have pC: "(u, d) \<in> set ?C" by simp
  from q set_most_common have qC: "(v, d) \<in> set ?C" by blast
  from lt have "first_index (map fst ?C) (fst (u, d)) < first_index (map fst ?C) (fst (v, d))"
    by (simp add: Counter_keys first_index_first_occ)
  then have "first_index ?C (u, d) < first_index ?C (v, d)"
    using first_index_keys [OF distinct_Counter pC] first_index_keys [OF distinct_Counter qC]
    by simp
  then have "first_index (sort_key ?f ?C) (u, d) < first_index (sort_key ?f ?C) (v, d)"
    by (subst first_index_sort_key) simp_all
  moreover from q have "first_index (sort_key ?f ?C) (v, d) < n"
    by (simp add: most_common_def in_take_first_index)
  ultimately show ?thesis
    using pC by (simp add: most_common_def in_take_first_index)
qed

text \<open>
  C3: \<open>most_common_words\<close> is sorted by descending count, each count being the number of
  occurrences of the word among the lowercased and stripped words; and of two of its words
  with the same count, the one that occurs first in that sequence of words comes first.
  Moreover a word with the same count as one of its words, and occurring before it, is
  itself one of its words.  For \<open>b a a b\<close> both words have count 2 and \<open>b\<close> comes before \<open>a\<close>.
\<close>

theorem top_words_order:
  "sorted_wrt (\<lambda>p q. snd q \<le> snd p) (most_common_words (analyze_text s)) \<and>
   (\<forall>(w, c) \<in> set (most_common_words (analyze_text s)).
      c = int (count_list (map normalise (findall s)) w)) \<and>
   (\<forall>(u, c) \<in> set (most_common_words (analyze_text s)).
    \<forall>(v, d) \<in> set (most_common_words (analyze_text s)).
      c = d \<and>
      first_index (map normalise (findall s)) u < first_index (map normalise (findall s)) v \<longrightarrow>
      first_index (map fst (most_common_words (analyze_text s))) u
        < first_index (map fst (most_common_words (analyze_text s))) v) \<and>
   (\<forall>(v, d) \<in> set (most_common_words (analyze_text s)).
    \<forall>u \<in> set (map normalise (findall s)).
      int (count_list (map normalise (findall s)) u) = d \<and>
      first_index (map normalise (findall s)) u < first_index (map normalise (findall s)) v \<longrightarrow>
      (u, d) \<in> set (most_common_words (analyze_text s))) \<and>
   findall ''b a a b'' = [''b'', ''a'', ''a'', ''b''] \<and>
   most_common_words (analyze_text ''b a a b'') = [(''b'', 2), (''a'', 2)]"
proof -
  let ?ws = "map normalise (findall s)"
  have top: "most_common_words (analyze_text s) = most_common 5 (Counter ?ws)"
    by (simp add: analyze_text_def)
  have 1: "sorted_wrt (\<lambda>p q. snd q \<le> snd p) (most_common_words (analyze_text s))"
    unfolding top by (rule sorted_most_common)
  have 2: "\<forall>(w, c) \<in> set (most_common_words (analyze_text s)). c = int (count_list ?ws w)"
    unfolding top using set_most_common [of 5 "Counter ?ws"] Counter_counts [of _ _ ?ws] by blast
  have 3: "\<forall>(u, c) \<in> set (most_common_words (analyze_text s)).
    \<forall>(v, d) \<in> set (most_common_words (analyze_text s)).
      c = d \<and> first_index ?ws u < first_index ?ws v \<longrightarrow>
      first_index (map fst (most_common_words (analyze_text s))) u
        < first_index (map fst (most_common_words (analyze_text s))) v"
    unfolding top using most_common_order [of _ 5 ?ws] by fastforce
  have 6: "\<forall>(v, d) \<in> set (most_common_words (analyze_text s)). \<forall>u \<in> set ?ws.
      int (count_list ?ws u) = d \<and> first_index ?ws u < first_index ?ws v \<longrightarrow>
      (u, d) \<in> set (most_common_words (analyze_text s))"
    unfolding top using most_common_tie_included [of _ _ 5 ?ws] by blast
  have 4: "findall ''b a a b'' = [''b'', ''a'', ''a'', ''b'']" by code_simp
  have 5: "most_common_words (analyze_text ''b a a b'') = [(''b'', 2), (''a'', 2)]" by code_simp
  from 1 2 3 4 5 6 show ?thesis by blast
qed

theorem top_words_order_witness:
  "most_common_words (analyze_text ''to be or not to be or'') =
     [(''to'', 2), (''be'', 2), (''or'', 2), (''not'', 1)] \<and>
   first_index (map normalise (findall ''to be or not to be or'')) ''be'' = 1 \<and>
   first_index (map normalise (findall ''to be or not to be or'')) ''or'' = 2 \<and>
   first_index (map fst (most_common_words (analyze_text ''to be or not to be or''))) ''be''
     < first_index (map fst (most_common_words (analyze_text ''to be or not to be or''))) ''or''"
proof -
  let ?s = "''to be or not to be or''"
  have m: "most_common_words (analyze_text ?s) =
     [(''to'', 2), (''be'', 2), (''or'', 2), (''not'', 1)]" by code_simp
  have a: "first_index (map normalise (findall ?s)) ''be'' = 1" by code_simp
  have b: "first_index (map normalise (findall ?s)) ''or'' = 2" by code_simp
  from top_words_order [of ?s] have
    "\<forall>(u, c) \<in> set (most_common_words (analyze_text ?s)).
     \<forall>(v, d) \<in> set (most_common_words (analyze_text ?s)).
      c = d \<and>
      first_index (map normalise (findall ?s)) u < first_index (map normalise (findall ?s)) v \<longrightarrow>
      first_index (map fst (most_common_words (analyze_text ?s))) u
        < first_index (map fst (most_common_words (analyze_text ?s))) v"
    by blast
  moreover have "(''be'', 2) \<in> set (most_common_words (analyze_text ?s))"
    and "(''or'', 2) \<in> set (most_common_words (analyze_text ?s))"
    by (simp_all add: m)
  ultimately have "first_index (map fst (most_common_words (analyze_text ?s))) ''be''
     < first_index (map fst (most_common_words (analyze_text ?s))) ''or''"
    using a b by fastforce
  with m a b show ?thesis by blast
qed

section \<open>Word extraction\<close>

lemma class_run_end_ge: "i \<le> class_run_end s i"
proof (induction s i rule: class_run_end.induct)
  case (1 s i)
  show ?case
  proof (cases "i < length s \<and> in_class (s ! i)")
    case True
    from "1.IH" [OF True] True show ?thesis
      by (simp add: class_run_end.simps [of s i])
  next
    case False
    then show ?thesis by (auto simp: class_run_end.simps [of s i])
  qed
qed

lemma class_run_end_in_class:
  "i \<le> k \<Longrightarrow> k < class_run_end s i \<Longrightarrow> k < length s \<and> in_class (s ! k)"
proof (induction s i rule: class_run_end.induct)
  case (1 s i)
  show ?case
  proof (cases "i < length s \<and> in_class (s ! i)")
    case True
    show ?thesis
    proof (cases "k = i")
      case True
      with \<open>i < length s \<and> in_class (s ! i)\<close> show ?thesis by simp
    next
      case False
      with "1.prems" have "Suc i \<le> k" by simp
      moreover from "1.prems" True have "k < class_run_end s (Suc i)"
        by (simp add: class_run_end.simps [of s i])
      ultimately show ?thesis using "1.IH" [OF True] by blast
    qed
  next
    case False
    with "1.prems" show ?thesis by (auto simp: class_run_end.simps [of s i])
  qed
qed

lemma class_run_end_stop:
  "\<not> (class_run_end s i < length s \<and> in_class (s ! class_run_end s i))"
proof (induction s i rule: class_run_end.induct)
  case (1 s i)
  show ?case
  proof (cases "i < length s \<and> in_class (s ! i)")
    case True
    from "1.IH" [OF True] True show ?thesis
      by (simp add: class_run_end.simps [of s i])
  next
    case False
    then show ?thesis by (auto simp: class_run_end.simps [of s i])
  qed
qed

lemma class_run_end_greatest:
  "i \<le> j \<Longrightarrow> j \<le> length s \<Longrightarrow> \<forall>k\<in>{i..<j}. in_class (s ! k) \<Longrightarrow> j \<le> class_run_end s i"
proof (induction s i rule: class_run_end.induct)
  case (1 s i)
  show ?case
  proof (cases "i = j")
    case True
    then show ?thesis using class_run_end_ge [of i s] by simp
  next
    case False
    with "1.prems" have lt: "i < j" by simp
    with "1.prems" have c: "i < length s \<and> in_class (s ! i)" by simp
    from lt have "Suc i \<le> j" by simp
    moreover from "1.prems" have "\<forall>k\<in>{Suc i..<j}. in_class (s ! k)" by simp
    ultimately have "j \<le> class_run_end s (Suc i)"
      using "1.IH" [OF c] "1.prems"(2) by blast
    with c show ?thesis by (simp add: class_run_end.simps [of s i])
  qed
qed

lemma backtrack_Some:
  "backtrack s pos e = Some e' \<Longrightarrow>
   pos < e' \<and> e' \<le> e \<and> at_boundary s e' \<and> (\<forall>k. e' < k \<and> k \<le> e \<longrightarrow> \<not> at_boundary s k)"
proof (induction s pos e rule: backtrack.induct)
  case (1 s pos e)
  show ?case
  proof (cases "e \<le> pos")
    case True
    with "1.prems" show ?thesis by (simp add: backtrack.simps [of s pos e])
  next
    case False
    show ?thesis
    proof (cases "at_boundary s e")
      case True
      with False "1.prems" show ?thesis by (auto simp: backtrack.simps [of s pos e])
    next
      case b: False
      with False "1.prems" have "backtrack s pos (e - 1) = Some e'"
        by (simp add: backtrack.simps [of s pos e])
      from "1.IH" [OF False b this] have
        *: "pos < e'" "e' \<le> e - 1" "at_boundary s e'"
           "\<forall>k. e' < k \<and> k \<le> e - 1 \<longrightarrow> \<not> at_boundary s k"
        by blast+
      have "\<not> at_boundary s k" if "e' < k" "k \<le> e" for k
      proof (cases "k = e")
        case True
        with b show ?thesis by simp
      next
        case False
        with that have "k \<le> e - 1" by simp
        with * that show ?thesis by blast
      qed
      with * show ?thesis by auto
    qed
  qed
qed

lemma backtrack_None:
  "backtrack s pos e = None \<Longrightarrow> pos < k \<Longrightarrow> k \<le> e \<Longrightarrow> \<not> at_boundary s k"
proof (induction s pos e rule: backtrack.induct)
  case (1 s pos e)
  from "1.prems" have ne: "\<not> e \<le> pos" by simp
  with "1.prems" have b: "\<not> at_boundary s e"
    by (auto simp: backtrack.simps [of s pos e] split: if_splits)
  with ne "1.prems" have n: "backtrack s pos (e - 1) = None"
    by (simp add: backtrack.simps [of s pos e])
  show ?case
  proof (cases "k = e")
    case True
    with b show ?thesis by simp
  next
    case False
    with "1.prems" have "k \<le> e - 1" by simp
    from "1.IH" [OF ne b n "1.prems"(2) this] show ?thesis .
  qed
qed

lemma bounded_run_le_end: "bounded_run s pos j \<Longrightarrow> j \<le> class_run_end s pos"
  by (rule class_run_end_greatest) (auto simp: bounded_run_def)

lemma match_at_Some:
  assumes "match_at s pos = Some e"
  shows "bounded_run s pos e" and "bounded_run s pos j \<Longrightarrow> j \<le> e"
proof -
  from assms have b: "at_boundary s pos"
    and bt: "backtrack s pos (class_run_end s pos) = Some e"
    by (simp_all add: match_at_def split: if_splits)
  from backtrack_Some [OF bt] have
    *: "pos < e" "e \<le> class_run_end s pos" "at_boundary s e"
       "\<forall>k. e < k \<and> k \<le> class_run_end s pos \<longrightarrow> \<not> at_boundary s k"
    by blast+
  have in_cl: "k < length s \<and> in_class (s ! k)" if "pos \<le> k" "k < e" for k
    using that * by (intro class_run_end_in_class [of pos k s]) simp_all
  from * have "pos \<le> e - 1" "e - 1 < e" by simp_all
  from in_cl [OF this] *(1) have "e \<le> length s" by linarith
  with * b in_cl show "bounded_run s pos e" by (simp add: bounded_run_def)
  show "j \<le> e" if r: "bounded_run s pos j"
  proof (rule ccontr)
    assume "\<not> j \<le> e"
    with bounded_run_le_end [OF r] * have "\<not> at_boundary s j" by simp
    with r show False by (simp add: bounded_run_def)
  qed
qed

lemma match_at_None: "match_at s pos = None \<Longrightarrow> \<not> bounded_run s pos j"
proof
  assume n: "match_at s pos = None" and r: "bounded_run s pos j"
  then have "backtrack s pos (class_run_end s pos) = None"
    by (simp add: match_at_def bounded_run_def split: if_splits)
  from backtrack_None [OF this, of j] bounded_run_le_end [OF r] r show False
    by (simp add: bounded_run_def)
qed

lemma bounded_run_merge:
  assumes "bounded_run s a b" "bounded_run s c d" "a \<le> c" "c \<le> b" "b \<le> d"
  shows "bounded_run s a d"
proof -
  have "in_class (s ! k)" if "a \<le> k" "k < d" for k
  proof (cases "k < b")
    case True
    with assms(1) that show ?thesis by (simp add: bounded_run_def)
  next
    case False
    with assms(2,4) that show ?thesis by (simp add: bounded_run_def)
  qed
  with assms show ?thesis by (simp add: bounded_run_def)
qed

lemma unseen_0: "unseen s 0"
  by (simp add: unseen_def)

lemma unseen_Suc: "unseen s pos \<Longrightarrow> match_at s pos = None \<Longrightarrow> unseen s (Suc pos)"
  unfolding unseen_def
proof (intro ballI)
  fix i j
  assume u: "\<forall>i\<in>{0..<pos}. \<forall>j\<in>{pos<..length s}. \<not> bounded_run s i j"
    and n: "match_at s pos = None"
    and i: "i \<in> {0..<Suc pos}" and j: "j \<in> {Suc pos<..length s}"
  show "\<not> bounded_run s i j"
  proof (cases "i = pos")
    case True
    with match_at_None [OF n] show ?thesis by simp
  next
    case False
    with i j u show ?thesis by simp
  qed
qed

lemma unseen_match: "unseen s pos \<Longrightarrow> match_at s pos = Some e \<Longrightarrow> unseen s e"
  unfolding unseen_def
proof (intro ballI)
  fix i j
  assume u: "\<forall>i\<in>{0..<pos}. \<forall>j\<in>{pos<..length s}. \<not> bounded_run s i j"
    and m: "match_at s pos = Some e"
    and i: "i \<in> {0..<e}" and j: "j \<in> {e<..length s}"
  from match_at_Some(1) [OF m] have pe: "pos < e" by (simp add: bounded_run_def)
  show "\<not> bounded_run s i j"
  proof (cases "i < pos")
    case True
    with i j u pe show ?thesis by simp
  next
    case False
    show ?thesis
    proof
      assume r: "bounded_run s i j"
      from bounded_run_merge [OF match_at_Some(1) [OF m] r] False i j
      have "bounded_run s pos j" by simp
      from match_at_Some(2) [OF m this] j show False by simp
    qed
  qed
qed

lemma token_span_match:
  assumes u: "unseen s pos" and m: "match_at s pos = Some e"
  shows "token_span s (pos, e)"
  unfolding token_span_def fst_conv snd_conv
proof (intro conjI ballI impI)
  show "bounded_run s pos e" by (rule match_at_Some(1) [OF m])
next
  fix i j
  assume i: "i \<in> {0..pos}" and j: "j \<in> {e..length s}" and r: "bounded_run s i j"
  from match_at_Some(1) [OF m] have pe: "pos < e" by (simp add: bounded_run_def)
  show "i = pos"
  proof (rule ccontr)
    assume "i \<noteq> pos"
    with i have "i \<in> {0..<pos}" by simp
    moreover from j pe have "j \<in> {pos<..length s}" by simp
    ultimately show False using u r by (simp add: unseen_def)
  qed
  with r match_at_Some(2) [OF m, of j] j show "j = e" by simp
qed

lemma token_span_in_match:
  assumes m: "match_at s pos = Some e" and t: "token_span s p" and "pos \<le> fst p" "fst p < e"
  shows "p = (pos, e)"
proof -
  obtain i j where p: "p = (i, j)" by (cases p)
  from t p have r: "bounded_run s i j" by (simp add: token_span_def)
  note me = match_at_Some(1) [OF m]
  have "j \<le> e"
  proof (rule ccontr)
    assume "\<not> j \<le> e"
    with bounded_run_merge [OF me r] assms(3,4) p have "bounded_run s pos j" by simp
    from match_at_Some(2) [OF m this] \<open>\<not> j \<le> e\<close> show False by simp
  qed
  moreover from me have "e \<le> length s" by (simp add: bounded_run_def)
  ultimately have "pos \<in> {0..fst p}" "e \<in> {snd p..length s}"
    using assms(3) p by simp_all
  with t me have "pos = fst p \<and> e = snd p"
    unfolding token_span_def by blast
  with p show ?thesis by simp
qed

lemma findall_spans_tokens:
  "unseen s pos \<Longrightarrow>
   set (findall_spans s pos) = {p. token_span s p \<and> pos \<le> fst p} \<and>
   sorted_wrt (\<lambda>p q. snd p \<le> fst q) (findall_spans s pos)"
proof (induction s pos rule: findall_spans.induct)
  case (1 s pos)
  show ?case
  proof (cases "length s < pos")
    case True
    then have "\<not> (token_span s p \<and> pos \<le> fst p)" for p
      by (auto simp: token_span_def bounded_run_def)
    with True show ?thesis by (simp add: findall_spans.simps [of s pos])
  next
    case False
    show ?thesis
    proof (cases "match_at s pos")
      case None
      from "1.IH"(1) [OF False None unseen_Suc [OF "1.prems" None]]
      have IH: "set (findall_spans s (Suc pos)) = {p. token_span s p \<and> Suc pos \<le> fst p}"
        "sorted_wrt (\<lambda>p q. snd p \<le> fst q) (findall_spans s (Suc pos))" by blast+
      have "fst p \<noteq> pos" if "token_span s p" for p
        using that match_at_None [OF None, of "snd p"] by (auto simp: token_span_def)
      then have "{p. token_span s p \<and> Suc pos \<le> fst p} = {p. token_span s p \<and> pos \<le> fst p}"
        by (auto simp: Suc_le_eq le_less)
      with IH False None show ?thesis by (simp add: findall_spans.simps [of s pos])
    next
      case (Some e)
      from "1.IH"(2) [OF False Some unseen_match [OF "1.prems" Some]]
      have IH: "set (findall_spans s e) = {p. token_span s p \<and> e \<le> fst p}"
        "sorted_wrt (\<lambda>p q. snd p \<le> fst q) (findall_spans s e)" by blast+
      from match_at_Some(1) [OF Some] have pe: "pos < e" by (simp add: bounded_run_def)
      have "{p. token_span s p \<and> pos \<le> fst p} = insert (pos, e) {p. token_span s p \<and> e \<le> fst p}"
        (is "?L = ?R")
      proof (rule set_eqI)
        fix p
        show "p \<in> ?L \<longleftrightarrow> p \<in> ?R"
        proof
          assume "p \<in> ?L"
          then have t: "token_span s p" and "pos \<le> fst p" by simp_all
          then show "p \<in> ?R"
            using token_span_in_match [OF Some t] by (cases "fst p < e") auto
        next
          assume "p \<in> ?R"
          then show "p \<in> ?L"
            using token_span_match [OF "1.prems" Some] pe by auto
        qed
      qed
      moreover have "sorted_wrt (\<lambda>p q. snd p \<le> fst q) ((pos, e) # findall_spans s e)"
        using IH by simp
      ultimately show ?thesis
        using False Some IH by (simp add: findall_spans.simps [of s pos])
    qed
  qed
qed

lemma is_word_in_class: "is_word c \<Longrightarrow> in_class c"
  by (simp add: in_class_def)

lemma token_span_first:
  assumes t: "token_span s (i, j)"
  shows "is_word (s ! i)"
proof (rule ccontr)
  assume nw: "\<not> is_word (s ! i)"
  from t have r: "bounded_run s i j" by (simp add: token_span_def)
  then have ij: "i < j" "j \<le> length s" and bi: "at_boundary s i" and bj: "at_boundary s j"
    and cl: "\<forall>k\<in>{i..<j}. in_class (s ! k)"
    by (simp_all add: bounded_run_def)
  from bi nw have i0: "0 < i" and wi: "is_word (s ! (i - 1))"
    by (auto simp: at_boundary_def)
  let ?P = "\<lambda>k. \<forall>m. k \<le> m \<and> m < i \<longrightarrow> is_word (s ! m)"
  define k where "k = (LEAST k. ?P k)"
  have "?P (i - 1)"
  proof (intro allI impI)
    fix m assume "i - 1 \<le> m \<and> m < i"
    then have "m = i - 1" by linarith
    with wi show "is_word (s ! m)" by simp
  qed
  then have Pk: "?P k" and ki: "k \<le> i - 1"
    unfolding k_def by (rule LeastI, rule Least_le)
  from ki i0 have k_lt: "k < i" by simp
  with Pk have wk: "is_word (s ! k)" by simp
  have "\<not> (0 < k \<and> is_word (s ! (k - 1)))"
  proof
    assume a: "0 < k \<and> is_word (s ! (k - 1))"
    have "?P (k - 1)"
    proof (intro allI impI)
      fix m assume m: "k - 1 \<le> m \<and> m < i"
      show "is_word (s ! m)"
      proof (cases "m = k - 1")
        case True
        with a show ?thesis by simp
      next
        case False
        with m have "k \<le> m \<and> m < i" by linarith
        with Pk show ?thesis by blast
      qed
    qed
    then have "k \<le> k - 1" unfolding k_def by (rule Least_le)
    with a show False by linarith
  qed
  with wk k_lt ij have bk: "at_boundary s k" by (auto simp: at_boundary_def)
  have "in_class (s ! m)" if "k \<le> m" "m < j" for m
  proof (cases "m < i")
    case True
    with Pk that show ?thesis by (simp add: is_word_in_class)
  next
    case False
    with cl that show ?thesis by simp
  qed
  with bk bj ij k_lt have "bounded_run s k j" by (simp add: bounded_run_def)
  moreover from k_lt ij have "k \<in> {0..fst (i, j)}" "j \<in> {snd (i, j)..length s}" by simp_all
  ultimately have "k = i" using t unfolding token_span_def by fastforce
  with k_lt show False by simp
qed

lemma token_span_last:
  assumes t: "token_span s (i, j)"
  shows "is_word (s ! (j - 1))"
proof (rule ccontr)
  assume nw: "\<not> is_word (s ! (j - 1))"
  from t have r: "bounded_run s i j" by (simp add: token_span_def)
  then have ij: "i < j" "j \<le> length s" and bi: "at_boundary s i" and bj: "at_boundary s j"
    and cl: "\<forall>k\<in>{i..<j}. in_class (s ! k)"
    by (simp_all add: bounded_run_def)
  from bj nw ij have jl: "j < length s" and wj: "is_word (s ! j)"
    by (auto simp: at_boundary_def)
  let ?P = "\<lambda>k. j \<le> k \<and> \<not> (k < length s \<and> is_word (s ! k))"
  define k where "k = (LEAST k. ?P k)"
  have "?P (length s)" using ij by simp
  then have Pk: "?P k" and kl: "k \<le> length s"
    unfolding k_def by (rule LeastI, rule Least_le)
  from Pk wj jl have jk: "j < k" by (cases "k = j") auto
  have w: "m < length s \<and> is_word (s ! m)" if "j \<le> m" "m < k" for m
  proof (rule ccontr)
    assume "\<not> (m < length s \<and> is_word (s ! m))"
    with that have "?P m" by simp
    then have "k \<le> m" unfolding k_def by (rule Least_le)
    with that show False by simp
  qed
  from jk have "j \<le> k - 1" "k - 1 < k" by simp_all
  from w [OF this] Pk jk kl have bk: "at_boundary s k" by (auto simp: at_boundary_def)
  have "in_class (s ! m)" if "i \<le> m" "m < k" for m
  proof (cases "m < j")
    case True
    with cl that show ?thesis by simp
  next
    case False
    with w [of m] that show ?thesis by (simp add: is_word_in_class)
  qed
  with bk bi ij jk kl have "bounded_run s i k" by (simp add: bounded_run_def)
  moreover from jk kl have "i \<in> {0..fst (i, j)}" "k \<in> {snd (i, j)..length s}" by simp_all
  ultimately have "k = j" using t unfolding token_span_def by fastforce
  with jk show False by simp
qed

lemma slice_props:
  assumes "i < j" "j \<le> length s"
  shows "slice s (i, j) \<noteq> []" and "hd (slice s (i, j)) = s ! i"
    and "last (slice s (i, j)) = s ! (j - 1)"
    and "set (slice s (i, j)) = (\<lambda>k. s ! k) ` {i..<j}"
proof -
  from assms have len: "length (slice s (i, j)) = j - i"
    by (simp add: slice_def)
  with assms show ne: "slice s (i, j) \<noteq> []" by auto
  from assms show "hd (slice s (i, j)) = s ! i"
    by (simp add: slice_def hd_drop_conv_nth)
  have nth: "slice s (i, j) ! k = s ! (i + k)" if "k < j - i" for k
    using that assms by (simp add: slice_def)
  from ne len nth [of "j - i - 1"] assms show "last (slice s (i, j)) = s ! (j - 1)"
    by (simp add: last_conv_nth)
  show "set (slice s (i, j)) = (\<lambda>k. s ! k) ` {i..<j}"
  proof (intro set_eqI iffI)
    fix x assume "x \<in> set (slice s (i, j))"
    then obtain k where "k < j - i" "x = slice s (i, j) ! k"
      using len by (metis in_set_conv_nth)
    with nth [of k] have "x = s ! (i + k)" "i + k \<in> {i..<j}" by simp_all
    then show "x \<in> (\<lambda>k. s ! k) ` {i..<j}" by blast
  next
    fix x assume "x \<in> (\<lambda>k. s ! k) ` {i..<j}"
    then obtain m where m: "i \<le> m" "m < j" "x = s ! m" by auto
    then have "m - i < length (slice s (i, j))" using len by simp
    then have "slice s (i, j) ! (m - i) \<in> set (slice s (i, j))" by (rule nth_mem)
    with nth [of "m - i"] m show "x \<in> set (slice s (i, j))" by simp
  qed
qed

lemma findall_spans_set: "set (findall_spans s 0) = {p. token_span s p}"
  using findall_spans_tokens [OF unseen_0, of s] by simp

lemma findall_spans_sorted: "sorted_wrt (\<lambda>p q. snd p \<le> fst q) (findall_spans s 0)"
  using findall_spans_tokens [OF unseen_0, of s] by simp

lemma spans_distinct:
  "sorted_wrt (\<lambda>p q. snd p \<le> fst q) xs \<Longrightarrow> \<forall>p\<in>set xs. fst p < snd p \<Longrightarrow>
   distinct (xs :: (nat \<times> nat) list)"
  by (induction xs) fastforce+

lemma findall_spans_distinct: "distinct (findall_spans s 0)"
proof (rule spans_distinct [OF findall_spans_sorted])
  show "\<forall>p\<in>set (findall_spans s 0). fst p < snd p"
    by (simp add: findall_spans_set token_span_def bounded_run_def)
qed

text \<open>
  A token span need not be a whole run of word characters, apostrophes and hyphens: the
  run \<open>ab-\<close> has no word boundary at its end, and the token in it is \<open>ab\<close>.
\<close>

lemma token_inside_longer_run:
  "list_all in_class ''ab-'' \<and> \<not> at_boundary ''ab-'' 3 \<and> findall ''ab-'' = [''ab'']"
  by code_simp

text \<open>
  C1: the spans that \<open>findall\<close> finds are exactly the token spans of the text, that is the
  runs of word characters, apostrophes and hyphens with a word boundary at each end that
  no other such run contains, and they are listed once each and from left to right, each
  one ending before the next one starts.  The words are the slices of the text at these spans, and
  \<open>words\<close> is the number of them; the empty text has none.
\<close>

theorem words_are_token_runs:
  "(\<forall>p. p \<in> set (findall_spans s 0) \<longleftrightarrow> token_span s p) \<and>
   sorted_wrt (\<lambda>p q. snd p \<le> fst q) (findall_spans s 0) \<and>
   distinct (findall_spans s 0) \<and>
   findall s = map (slice s) (findall_spans s 0) \<and>
   words (analyze_text s) = int (length (findall s)) \<and>
   findall [] = [] \<and> words (analyze_text []) = 0"
proof -
  have "findall [] = []" by code_simp
  moreover have "words (analyze_text []) = 0" by code_simp
  moreover have "words (analyze_text s) = int (length (findall s))"
    by (simp add: analyze_text_def)
  ultimately show ?thesis
    using findall_spans_set [of s] findall_spans_sorted [of s] findall_spans_distinct [of s]
    by (simp add: findall_def)
qed

theorem words_are_token_runs_witness:
  "findall_spans ''-it's- ok'' 0 = [(1, 5), (7, 9)] \<and>
   token_span ''-it's- ok'' (1, 5) \<and> token_span ''-it's- ok'' (7, 9) \<and>
   findall ''-it's- ok'' = [''it's'', ''ok'']"
proof -
  let ?s = "''-it's- ok''"
  have sp: "findall_spans ?s 0 = [(1, 5), (7, 9)]" by code_simp
  have w: "map (slice ?s) [(1, 5), (7, 9)] = [''it's'', ''ok'']" by code_simp
  from words_are_token_runs [of ?s]
  have iff: "\<And>p. p \<in> set (findall_spans ?s 0) \<longleftrightarrow> token_span ?s p"
    and f: "findall ?s = map (slice ?s) (findall_spans ?s 0)"
    by blast+
  have "(1, 5) \<in> set (findall_spans ?s 0)" "(7, 9) \<in> set (findall_spans ?s 0)"
    by (simp_all only: sp list.set insert_iff simp_thms)
  then have "token_span ?s (1, 5)" "token_span ?s (7, 9)"
    by (simp_all only: iff)
  moreover from f have "findall ?s = [''it's'', ''ok'']"
    by (simp only: sp w)
  ultimately show ?thesis using sp by blast
qed

lemma token_props:
  assumes "w \<in> set (findall s)"
  shows "w \<noteq> []" "is_word (hd w)" "is_word (last w)" "list_all in_class w"
proof -
  from assms obtain p where p: "p \<in> set (findall_spans s 0)" and w: "w = slice s p"
    by (auto simp: findall_def)
  obtain i j where ij: "p = (i, j)" by (cases p)
  from p ij have t: "token_span s (i, j)" by (simp add: findall_spans_set)
  then have r: "i < j" "j \<le> length s" "\<forall>k\<in>{i..<j}. in_class (s ! k)"
    by (simp_all add: token_span_def bounded_run_def)
  note sp = slice_props [OF r(1,2)]
  from sp(1) show "w \<noteq> []" by (simp add: w ij)
  from sp(2) token_span_first [OF t] show "is_word (hd w)" by (simp add: w ij)
  from sp(3) token_span_last [OF t] show "is_word (last w)" by (simp add: w ij)
  from sp(4) r(3) show "list_all in_class w" by (auto simp: w ij list_all_iff)
qed

lemma strip_quotes_word_ends:
  assumes "w \<noteq> []" "is_word (hd w)" "is_word (last w)"
  shows "strip_quotes w = w"
  unfolding strip_quotes_def using assms by (intro strip_chars_id) (simp_all add: is_word_not_quote)

lemma lower_word_ends:
  assumes "w \<noteq> []" "is_word (hd w)" "is_word (last w)"
  shows "lower w \<noteq> []" "is_word (hd (lower w))" "is_word (last (lower w))"
  using assms by (simp_all add: lower_def hd_map last_map is_word_lower)

lemma normalise_token: "w \<in> set (findall s) \<Longrightarrow> normalise w = lower w"
  unfolding normalise_def
  by (intro strip_quotes_word_ends lower_word_ends token_props)

text \<open>
  C10: every word that \<open>findall\<close> extracts is not empty, begins with a word character and
  ends with one, and has only word characters, apostrophes and hyphens in it; so stripping
  quotes from the word, or from the lowercased word, changes nothing, and the words that
  are counted are just the lowercased words.
\<close>

theorem tokens_word_ended:
  "(\<forall>w \<in> set (findall s).
      w \<noteq> [] \<and> is_word (hd w) \<and> is_word (last w) \<and> list_all in_class w \<and>
      strip_quotes w = w \<and> strip_quotes (lower w) = lower w) \<and>
   map normalise (findall s) = map lower (findall s)"
proof -
  have "w \<noteq> [] \<and> is_word (hd w) \<and> is_word (last w) \<and> list_all in_class w \<and>
      strip_quotes w = w \<and> strip_quotes (lower w) = lower w" if "w \<in> set (findall s)" for w
    using token_props [OF that] normalise_token [OF that]
      strip_quotes_word_ends [of w] by (simp add: normalise_def)
  moreover have "map normalise (findall s) = map lower (findall s)"
    using normalise_token by (intro map_cong) auto
  ultimately show ?thesis by blast
qed

theorem tokens_word_ended_witness:
  "findall ''-It's- 'OK'.'' = [''It's'', ''OK''] \<and>
   is_word (hd ''It's'') \<and> is_word (last ''It's'') \<and>
   strip_quotes (lower ''It's'') = lower ''It's'' \<and>
   map normalise (findall ''-It's- 'OK'.'') = [''it's'', ''ok'']"
proof -
  have f: "findall ''-It's- 'OK'.'' = [''It's'', ''OK'']" by code_simp
  have l: "map lower [''It's'', ''OK''] = [''it's'', ''ok'']" by code_simp
  from tokens_word_ended [of "''-It's- 'OK'.''"] f l show ?thesis by simp
qed

end
